theory Spec2Isabelle
  imports Main
begin

section \<open>Strings and the filter policy\<close>

text \<open>
  Node identifiers and the filter are Python \<^verbatim>\<open>str\<close> values, modelled as \<^typ>\<open>string\<close>.
  The identifiers the program accepts are ASCII (\<^verbatim>\<open>PKG_RE\<close>, \<^verbatim>\<open>UPPER_RE\<close>), and
  \<^verbatim>\<open>str.lower\<close> is modelled on ASCII: the letters \<^verbatim>\<open>A..Z\<close> go to \<^verbatim>\<open>a..z\<close>, every other
  character is kept. The general theorems below use of \<open>lower\<close> only that it maps the
  empty string, and no other, to the empty string.
\<close>

definition upper_letters :: string where
  "upper_letters = ''ABCDEFGHIJKLMNOPQRSTUVWXYZ''"

definition lower_letters :: string where
  "lower_letters = ''abcdefghijklmnopqrstuvwxyz''"

definition lower_char :: "char \<Rightarrow> char" where
  "lower_char c = (case map_of (zip upper_letters lower_letters) c of None \<Rightarrow> c | Some d \<Rightarrow> d)"

definition lower :: "string \<Rightarrow> string" where
  "lower s = map lower_char s"

text \<open>\<^verbatim>\<open>s.startswith(p)\<close> and the substring test \<^verbatim>\<open>p in s\<close>.\<close>

fun startswith :: "string \<Rightarrow> string \<Rightarrow> bool" where
  "startswith s [] = True"
| "startswith [] (p # ps) = False"
| "startswith (c # cs) (p # ps) = (c = p \<and> startswith cs ps)"

fun str_in :: "string \<Rightarrow> string \<Rightarrow> bool" where
  "str_in p [] = (p = [])"
| "str_in p (c # cs) = (startswith (c # cs) p \<or> str_in p cs)"

text \<open>
  The guard \<^verbatim>\<open>flt_low and flt_low in node.lower()\<close> of both traversals: an empty filter
  is falsy and excludes nothing.
\<close>

definition excluded :: "string \<Rightarrow> string \<Rightarrow> bool" where
  "excluded flt_low node = (flt_low \<noteq> [] \<and> str_in flt_low (lower node))"

section \<open>The edge store\<close>

text \<open>
  \<^verbatim>\<open>Graph = Dict[str, Set[str]]\<close>, built as a \<^verbatim>\<open>defaultdict(set)\<close>. The dictionary is an
  association list in insertion order (the order \<^verbatim>\<open>items()\<close> iterates in); a set that the
  program iterates over is a list without repetitions, whose order stands for the iteration
  order, which Python leaves open. The theorems below speak of the sets of keys and edges
  only, and hold for every order of the input.
\<close>

type_synonym graph = "(string \<times> string list) list"

definition keys :: "graph \<Rightarrow> string list" where
  "keys g = map fst g"

definition edge_list :: "graph \<Rightarrow> (string \<times> string) list" where
  "edge_list g = concat (map (\<lambda>(u, nbrs). map (\<lambda>v. (u, v)) nbrs) g)"

definition edges :: "graph \<Rightarrow> (string \<times> string) set" where
  "edges g = set (edge_list g)"

text \<open>\<^verbatim>\<open>g.get(u, ())\<close>: the neighbours of \<open>u\<close>, nothing for an absent key.\<close>

definition get :: "graph \<Rightarrow> string \<Rightarrow> string list" where
  "get g u = (case map_of g u of None \<Rightarrow> [] | Some nbrs \<Rightarrow> nbrs)"

text \<open>\<^verbatim>\<open>s.add(v)\<close> on a set.\<close>

definition set_add :: "string list \<Rightarrow> string \<Rightarrow> string list" where
  "set_add s v = (if v \<in> set s then s else s @ [v])"

text \<open>
  \<^verbatim>\<open>g[u].add(v)\<close> on a \<^verbatim>\<open>defaultdict(set)\<close>: an absent key \<open>u\<close> is created (with an empty
  set) by the subscript, then \<open>v\<close> is added to its set.
\<close>

fun add_edge :: "graph \<Rightarrow> string \<Rightarrow> string \<Rightarrow> graph" where
  "add_edge [] u v = [(u, [v])]"
| "add_edge ((k, s) # g) u v =
     (if k = u then (k, set_add s v) # g else (k, s) # add_edge g u v)"

text \<open>\<^verbatim>\<open>g.setdefault(u, set())\<close>.\<close>

fun setdefault :: "graph \<Rightarrow> string \<Rightarrow> graph" where
  "setdefault [] u = [(u, [])]"
| "setdefault ((k, s) # g) u = (if k = u then (k, s) # g else (k, s) # setdefault g u)"

section \<open>Exceptions\<close>

text \<open>
  Python exceptions as values. \<^verbatim>\<open>fail\<close> raises \<^verbatim>\<open>SystemExit(2)\<close>, which derives from
  \<^verbatim>\<open>BaseException\<close> and not from \<^verbatim>\<open>Exception\<close>; every other exception the fetch can
  raise (a timeout while reading, a decoding error, an attribute or type error on a JSON
  value of an unexpected shape) derives from \<^verbatim>\<open>Exception\<close> and is the one value
  \<open>Exception\<close> here. A computation returns \<open>Inr\<close> its value or \<open>Inl\<close> what it raised.
\<close>

datatype exn = SystemExit nat | Exception

type_synonym 'a result = "exn + 'a"

text \<open>\<^verbatim>\<open>fail(msg)\<close> prints the message to the standard error stream, which is not modelled.\<close>

definition fail :: "string \<Rightarrow> 'a result" where
  "fail msg = Inl (SystemExit 2)"

section \<open>Loading the test repository\<close>

text \<open>
  \<^verbatim>\<open>load_test_graph\<close>, on the lines of the file (each with its line break, as the iteration
  over the file yields them). Whitespace is what \<^verbatim>\<open>str.strip\<close> and \<^verbatim>\<open>str.split\<close> take for
  it in ASCII: the characters 9 to 13, 28 to 31 and the blank.
\<close>

definition is_space :: "char \<Rightarrow> bool" where
  "is_space c = (c \<in> set [CHR 0x09, CHR 0x0A, CHR 0x0B, CHR 0x0C, CHR 0x0D,
                           CHR 0x1C, CHR 0x1D, CHR 0x1E, CHR 0x1F, CHR 0x20])"

definition strip :: "string \<Rightarrow> string" where
  "strip s = rev (dropWhile is_space (rev (dropWhile is_space s)))"

text \<open>\<^verbatim>\<open>s.split()\<close>: the maximal runs of characters that are no whitespace.\<close>

fun split_from :: "string \<Rightarrow> string \<Rightarrow> string list" where
  "split_from cur [] = (if cur = [] then [] else [cur])"
| "split_from cur (c # cs) =
     (if is_space c then (if cur = [] then split_from [] cs else cur # split_from [] cs)
      else split_from (cur @ [c]) cs)"

definition split :: "string \<Rightarrow> string list" where
  "split s = split_from [] s"

text \<open>\<^verbatim>\<open>UPPER_RE.fullmatch\<close> for \<^verbatim>\<open>^[A-Z]+$\<close>: one or more letters \<^verbatim>\<open>A..Z\<close> and nothing else.\<close>

definition UPPER_RE_fullmatch :: "string \<Rightarrow> bool" where
  "UPPER_RE_fullmatch s = (s \<noteq> [] \<and> list_all (\<lambda>c. c \<in> set upper_letters) s)"

text \<open>The loop \<^verbatim>\<open>for d in deps\<close> of one line.\<close>

fun load_deps :: "graph \<Rightarrow> string \<Rightarrow> string list \<Rightarrow> graph result" where
  "load_deps g left [] = Inr g"
| "load_deps g left (d # deps) =
     (if \<not> UPPER_RE_fullmatch d
      then fail (''invalid dep name in test graph (must be A..Z+): '' @ d)
      else load_deps (add_edge g left d) left deps)"

definition load_line :: "graph \<Rightarrow> string \<Rightarrow> graph result" where
  "load_line g line =
     (let s = strip line in
      if s = [] \<or> startswith s ''#'' then Inr g
      else if CHR '':'' \<notin> set s
        then fail (''bad test graph line (expected 'X: Y Z'): '' @ s)
      else
        let left = strip (takeWhile (\<lambda>c. c \<noteq> CHR '':'') s);
            right = tl (dropWhile (\<lambda>c. c \<noteq> CHR '':'') s)
        in if \<not> UPPER_RE_fullmatch left
           then fail (''invalid node name in test graph (must be A..Z+): '' @ left)
           else (case load_deps g left (filter (\<lambda>t. t \<noteq> []) (split (strip right))) of
                   Inl e \<Rightarrow> Inl e
                 | Inr g' \<Rightarrow> Inr (setdefault g' left)))"

fun load_lines :: "graph \<Rightarrow> string list \<Rightarrow> graph result" where
  "load_lines g [] = Inr g"
| "load_lines g (line # rest) =
     (case load_line g line of Inl e \<Rightarrow> Inl e | Inr g' \<Rightarrow> load_lines g' rest)"

definition load_test_graph :: "string list \<Rightarrow> graph result" where
  "load_test_graph file = load_lines [] file"

section \<open>Filter-pruned traversal of a local graph\<close>

text \<open>
  \<^verbatim>\<open>dfs_prune_by_filter\<close>. The inner \<^verbatim>\<open>dfs(u)\<close> mutates \<^verbatim>\<open>out\<close> and \<^verbatim>\<open>visited\<close>; the
  model passes the pair along. \<open>dfs_for\<close> is the loop \<^verbatim>\<open>for v in g.get(u, ())\<close> over the
  neighbours that are still to come.
\<close>

function dfs :: "graph \<Rightarrow> string \<Rightarrow> string \<Rightarrow> graph \<times> string set \<Rightarrow> graph \<times> string set"
  and dfs_for ::
    "graph \<Rightarrow> string \<Rightarrow> string \<Rightarrow> string list \<Rightarrow> graph \<times> string set \<Rightarrow> graph \<times> string set"
where
  "dfs g flt_low u (out, visited) =
     (if u \<in> visited then (out, visited)
      else if excluded flt_low u then (out, visited)
      else dfs_for g flt_low u (get g u) (out, insert u visited))"
| "dfs_for g flt_low u [] (out, visited) = (out, visited)"
| "dfs_for g flt_low u (v # vs) (out, visited) =
     (if excluded flt_low v then dfs_for g flt_low u vs (out, visited)
      else dfs_for g flt_low u vs (dfs g flt_low v (add_edge out u v, visited)))"
  by pat_completeness auto

text \<open>
  The recursion is nested (the loop continues in the state the recursive call returns), so
  termination needs a fact about the result first: a call never forgets a visited node.
\<close>

lemma dfs_dom_visited_mono:
  "dfs_dfs_for_dom (Inl (g, f, u, st)) \<Longrightarrow> snd st \<subseteq> snd (dfs g f u st)"
  "dfs_dfs_for_dom (Inr (g, f, u, vs, st)) \<Longrightarrow> snd st \<subseteq> snd (dfs_for g f u vs st)"
proof (induction g f u st and g f u vs st rule: dfs_dfs_for.pinduct)
  case (1 g flt_low u out visited)
  then show ?case by (auto simp: dfs.psimps)
next
  case (2 g flt_low u out visited)
  then show ?case by (simp add: dfs_for.psimps)
next
  case (3 g flt_low u v vs out visited)
  then show ?case by (auto simp: dfs_for.psimps)
qed

lemma get_absent: "u \<notin> fst ` set g \<Longrightarrow> get g u = []"
  by (simp add: get_def map_of_eq_None_iff[THEN iffD2])

text \<open>
  Every call that goes on either visits a key of \<open>g\<close> that was not visited before, or (for
  a node that is no key) has an empty loop; the loop itself shortens its list.
\<close>

termination dfs
proof (relation "inv_image (finite_psubset <*lex*> less_than)
    (\<lambda>a. case a of
        Inl (g, f, u, out, visited) \<Rightarrow> (fst ` set g - visited, 1)
      | Inr (g, f, u, vs, out, visited) \<Rightarrow> (fst ` set g - visited, 2 * length vs))",
    goal_cases)
  case 1
  then show ?case by auto
next
  case (2 g flt_low u out visited)
  then show ?case
    by (cases "u \<in> fst ` set g") (auto simp: finite_psubset_def get_absent)
next
  case (3 g flt_low u v vs out visited)
  then show ?case by simp
next
  case (4 g flt_low u v vs out visited)
  then show ?case by simp
next
  case (5 g flt_low u v vs out visited)
  from dfs_dom_visited_mono(1)[OF 5(2)]
  have "visited \<subseteq> snd (dfs g flt_low v (add_edge out u v, visited))" by simp
  then have "fst ` set g - snd (dfs g flt_low v (add_edge out u v, visited))
      \<subseteq> fst ` set g - visited"
    by auto
  then show ?case
    by (cases "dfs g flt_low v (add_edge out u v, visited)") (auto simp: finite_psubset_def)
qed

declare dfs.simps [simp del]

definition dfs_prune_state :: "graph \<Rightarrow> string \<Rightarrow> string \<Rightarrow> graph \<times> string set" where
  "dfs_prune_state g start flt = dfs g (lower flt) start ([], {})"

definition dfs_prune_by_filter :: "graph \<Rightarrow> string \<Rightarrow> string \<Rightarrow> graph" where
  "dfs_prune_by_filter g start flt = fst (dfs_prune_state g start flt)"

section \<open>Reverse graph and breadth-first reachability\<close>

text \<open>\<^verbatim>\<open>reverse_graph\<close>: two nested loops over \<^verbatim>\<open>g.items()\<close> and the neighbours.\<close>

definition reverse_graph :: "graph \<Rightarrow> graph" where
  "reverse_graph g =
     fold (\<lambda>(u, nbrs) r. setdefault (fold (\<lambda>v r. add_edge r v u) nbrs r) u) g []"

text \<open>
  \<^verbatim>\<open>reachable\<close>. The state of the loop is the set \<^verbatim>\<open>seen\<close> and the deque \<^verbatim>\<open>dq\<close>. The
  field \<open>enqueued\<close> is not in the program: it is the history of the worklist, every node
  ever put on \<^verbatim>\<open>dq\<close> in order, by \<^verbatim>\<open>deque([start])\<close> and by each \<^verbatim>\<open>dq.append(v)\<close>. Nothing
  reads it; it is there to state how often a node is enqueued.
\<close>

record bfs_state =
  seen :: "string list"
  dq :: "string list"
  enqueued :: "string list"

text \<open>The inner loop \<^verbatim>\<open>for v in g.get(u, ())\<close>.\<close>

fun reachable_for :: "string list \<Rightarrow> bfs_state \<Rightarrow> bfs_state" where
  "reachable_for [] st = st"
| "reachable_for (v # vs) st =
     reachable_for vs
       (if v \<notin> set (seen st)
        then st\<lparr>seen := set_add (seen st) v, dq := dq st @ [v], enqueued := enqueued st @ [v]\<rparr>
        else st)"

lemma reachable_for_seen: "set (seen (reachable_for vs st)) = set (seen st) \<union> set vs"
  by (induction vs arbitrary: st) (auto simp: set_add_def)

lemma reachable_for_dq:
  "set (seen (reachable_for vs st)) = set (seen st) \<Longrightarrow> dq (reachable_for vs st) = dq st"
proof (induction vs arbitrary: st)
  case Nil
  then show ?case by simp
next
  case (Cons v vs)
  have "v \<in> set (seen (reachable_for (v # vs) st))"
    by (simp only: reachable_for_seen) simp
  with Cons.prems have "v \<in> set (seen st)" by simp
  with Cons show ?case by simp
qed

text \<open>The loop \<^verbatim>\<open>while dq: u = dq.popleft(); ...\<close>.\<close>

function reachable_while :: "graph \<Rightarrow> bfs_state \<Rightarrow> bfs_state" where
  "reachable_while g st =
     (case dq st of
        [] \<Rightarrow> st
      | u # rest \<Rightarrow> reachable_while g (reachable_for (get g u) (st\<lparr>dq := rest\<rparr>)))"
  by pat_completeness auto

text \<open>
  A turn of the loop either adds an edge target of \<open>g\<close> to \<^verbatim>\<open>seen\<close>, or adds nothing and
  leaves the deque one shorter.
\<close>

termination reachable_while
proof (relation "inv_image (finite_psubset <*lex*> less_than)
    (\<lambda>(g, st). (snd ` edges g - set (seen st), length (dq st)))", goal_cases)
  case 1
  then show ?case by auto
next
  case (2 g st u rest)
  let ?st' = "reachable_for (get g u) (st\<lparr>dq := rest\<rparr>)"
  have fin: "finite (snd ` edges g - set (seen st))"
    by (simp add: edges_def)
  have sub: "set (seen ?st') = set (seen st) \<union> set (get g u)"
    by (simp add: reachable_for_seen)
  have tgt: "set (get g u) \<subseteq> snd ` edges g"
  proof
    fix v assume v: "v \<in> set (get g u)"
    then obtain s where "map_of g u = Some s" "v \<in> set s"
      by (cases "map_of g u") (auto simp: get_def)
    then have "(u, v) \<in> edges g"
      by (force simp: edges_def edge_list_def dest: map_of_SomeD)
    then show "v \<in> snd ` edges g" by force
  qed
  show ?case
  proof (cases "set (seen ?st') = set (seen st)")
    case True
    then have "dq ?st' = rest"
      using reachable_for_dq[of "get g u" "st\<lparr>dq := rest\<rparr>"] by simp
    with True 2 show ?thesis by simp
  next
    case False
    with sub tgt have "snd ` edges g - set (seen ?st') \<subset> snd ` edges g - set (seen st)"
      by auto
    with fin show ?thesis by (simp add: finite_psubset_def)
  qed
qed

declare reachable_while.simps [simp del]

definition reachable_run :: "graph \<Rightarrow> string \<Rightarrow> bfs_state" where
  "reachable_run g start = reachable_while g \<lparr>seen = [], dq = [start], enqueued = [start]\<rparr>"

definition reachable :: "graph \<Rightarrow> string \<Rightarrow> string list" where
  "reachable g start = seen (reachable_run g start)"

text \<open>
  The reverse-dependency branch of \<^verbatim>\<open>main\<close> (\<^verbatim>\<open>--reverse\<close> in test mode), up to the
  rendering: the pair of \<^verbatim>\<open>depends_on_me\<close> and \<^verbatim>\<open>g_rev\<close>.
\<close>

definition main_reverse :: "graph \<Rightarrow> string \<Rightarrow> string list \<times> graph" where
  "main_reverse full_g package =
     (let r = reverse_graph full_g;
          depends_on_me = reachable r package;
          g_rev = fold (\<lambda>v g_rev.
                    fold (\<lambda>u g_rev.
                      if u \<in> set depends_on_me \<or> u = package then add_edge g_rev v u
                      else g_rev)
                    (get r v) g_rev)
                  depends_on_me []
      in (depends_on_me, g_rev))"

section \<open>DOT rendering\<close>

text \<open>\<^verbatim>\<open>"\n".join(lines)\<close>.\<close>

fun join :: "string \<Rightarrow> string list \<Rightarrow> string" where
  "join sep [] = []"
| "join sep [l] = l"
| "join sep (l # m # ls) = l @ sep @ join sep (m # ls)"

definition arrow_stmt :: "string \<Rightarrow> string \<Rightarrow> string" where
  "arrow_stmt u v = ''  \"'' @ u @ ''\" -> \"'' @ v @ ''\";''"

definition node_stmt :: "string \<Rightarrow> string" where
  "node_stmt n = ''  \"'' @ n @ ''\";''"

text \<open>
  \<^verbatim>\<open>to_dot\<close>. The first loop threads \<^verbatim>\<open>nodes\<close> and \<^verbatim>\<open>lines\<close>; the second loop appends a
  standalone statement for the nodes that pass its test.
\<close>

definition to_dot_lines :: "graph \<Rightarrow> string list" where
  "to_dot_lines g =
     (let lines0 = [''digraph deps {'', ''  rankdir=LR; node [shape=box, fontsize=10];''];
          (nodes, lines1) =
            fold (\<lambda>(u, nbrs) (nodes, lines).
                    (fold (\<lambda>v ns. set_add ns v) nbrs nodes,
                     lines @ map (arrow_stmt u) nbrs))
                 g (remdups (keys g), lines0);
          lines2 =
            fold (\<lambda>n lines.
                    if n \<notin> set (keys g) \<and> \<not> (\<exists>s \<in> set (map snd g). n \<in> set s)
                    then lines @ [node_stmt n] else lines)
                 nodes lines1
      in lines2 @ [''}''])"

definition to_dot :: "graph \<Rightarrow> string" where
  "to_dot g = join ''\<newline>'' (to_dot_lines g)"

section \<open>The registry and the remote graph builder\<close>

text \<open>
  What the program reads of a JSON object of the registry: of an entry of
  \<^verbatim>\<open>"dependencies"\<close> the four fields \<^verbatim>\<open>crates_direct_deps\<close> looks at (\<open>optional\<close> is the
  truth value of \<^verbatim>\<open>d.get("optional")\<close>, an absent \<^verbatim>\<open>kind\<close> or \<^verbatim>\<open>req\<close> is \<open>None\<close>), and of
  a response \<^verbatim>\<open>crate.newest_version\<close>, the \<^verbatim>\<open>num\<close> of each entry of \<^verbatim>\<open>versions\<close> and the
  \<^verbatim>\<open>dependencies\<close> (absent ones are \<open>None\<close> and the empty list). The \<^verbatim>\<open>crate_id\<close> is a
  string, as the result type of \<^verbatim>\<open>crates_direct_deps\<close> says.
\<close>

record dependency =
  crate_id :: string
  req :: "string option"
  kind :: "string option"
  optional :: bool

record body =
  newest_version :: "string option"
  versions :: "string option list"
  dependencies :: "dependency list"

text \<open>
  The outcome of \<^verbatim>\<open>urlopen\<close>, \<^verbatim>\<open>read\<close> and \<^verbatim>\<open>json.loads\<close> for a URL: the registry cannot be
  reached or answers with an error status (\<^verbatim>\<open>URLError\<close>, of which \<^verbatim>\<open>HTTPError\<close> is a
  subclass), the text is no JSON (\<^verbatim>\<open>JSONDecodeError\<close>), or a JSON object arrives.
  \<open>OtherError\<close> stands for every other exception on the way to the value the caller
  wants: one raised by the request itself, or by the reading of a JSON value that has not
  the shape above. The network is a function from URLs to outcomes; the line that
  \<^verbatim>\<open>http_get_json\<close> prints for each request is not modelled.
\<close>

datatype response = URLError | JSONDecodeError | OtherError | Json body

type_synonym network = "string \<Rightarrow> response"

definition http_get_json :: "network \<Rightarrow> string \<Rightarrow> body result" where
  "http_get_json net url =
     (case net url of
        URLError \<Rightarrow> fail (''cannot GET '' @ url)
      | JSONDecodeError \<Rightarrow> fail (''invalid JSON from '' @ url)
      | OtherError \<Rightarrow> Inl Exception
      | Json j \<Rightarrow> Inr j)"

definition CRATES_API :: string where
  "CRATES_API = ''https://crates.io/api/v1/crates''"

text \<open>The truth value of an optional string: \<^verbatim>\<open>None\<close> and \<^verbatim>\<open>""\<close> are falsy.\<close>

fun truthy :: "string option \<Rightarrow> bool" where
  "truthy None = False"
| "truthy (Some s) = (s \<noteq> [])"

definition crates_latest_version :: "network \<Rightarrow> string \<Rightarrow> string option result" where
  "crates_latest_version net crate =
     (case http_get_json net (CRATES_API @ ''/'' @ crate) of
        Inl e \<Rightarrow> Inl e
      | Inr meta \<Rightarrow>
          (if \<not> truthy (newest_version meta)
           then (case versions meta of
                   [] \<Rightarrow> fail (''no versions for crate '' @ crate)
                 | num # _ \<Rightarrow> Inr num)
           else Inr (newest_version meta)))"

text \<open>How an f-string formats the version: \<^verbatim>\<open>None\<close> prints as its name.\<close>

fun format_version :: "string option \<Rightarrow> string" where
  "format_version None = ''None''"
| "format_version (Some v) = v"

definition kind_or_normal :: "dependency \<Rightarrow> string" where
  "kind_or_normal d = (if truthy (kind d) then the (kind d) else ''normal'')"

definition req_or_empty :: "dependency \<Rightarrow> string" where
  "req_or_empty d = (if truthy (req d) then the (req d) else [])"

definition crates_direct_deps ::
  "network \<Rightarrow> string \<Rightarrow> string option \<Rightarrow> (string \<times> string \<times> string) list result" where
  "crates_direct_deps net crate version =
     (case http_get_json net
             (CRATES_API @ ''/'' @ crate @ ''/'' @ format_version version @ ''/dependencies'') of
        Inl e \<Rightarrow> Inl e
      | Inr j \<Rightarrow>
          Inr (map (\<lambda>d. (crate_id d, req_or_empty d, kind_or_normal d))
                 (filter (\<lambda>d. \<not> optional d \<and> kind_or_normal d = ''normal'') (dependencies j))))"

text \<open>The two calls inside the \<^verbatim>\<open>try\<close> block of \<^verbatim>\<open>build_graph_cratesio\<close>.\<close>

definition fetch_deps :: "network \<Rightarrow> string \<Rightarrow> (string \<times> string \<times> string) list result" where
  "fetch_deps net node =
     (case crates_latest_version net node of
        Inl e \<Rightarrow> Inl e
      | Inr ver \<Rightarrow> crates_direct_deps net node ver)"

text \<open>
  \<^verbatim>\<open>build_graph_cratesio\<close>. The registry is not bounded, so the recursion of the inner
  \<^verbatim>\<open>dfs\<close> need not end; the model counts the depth of the recursion down from \<open>fuel\<close>, and
  \<open>None\<close> says that the fuel did not suffice. \<open>Some (Inl e)\<close> is an exception that leaves
  the builder, \<open>Some (Inr st)\<close> a normal return with the graph and the visited set.
  The bound that Python itself puts on the depth of a recursion is not modelled.

  \<open>crates_for\<close> is the loop \<^verbatim>\<open>for dep, _req, _kind in deps\<close>, which stands outside the
  \<^verbatim>\<open>try\<close> block; its argument \<open>rec\<close> is the recursive call \<^verbatim>\<open>dfs(dep)\<close>.
  \<^verbatim>\<open>except Exception: return\<close> catches \<open>Exception\<close> and lets \<open>SystemExit\<close> through.
\<close>

fun crates_for ::
  "(string \<Rightarrow> graph \<times> string set \<Rightarrow> (graph \<times> string set) result option) \<Rightarrow> string \<Rightarrow> string
     \<Rightarrow> (string \<times> string \<times> string) list \<Rightarrow> graph \<times> string set
     \<Rightarrow> (graph \<times> string set) result option" where
  "crates_for rec flt_low node [] (graph, visited) = Some (Inr (graph, visited))"
| "crates_for rec flt_low node ((dep, req', kind') # deps) (graph, visited) =
     (if excluded flt_low dep then crates_for rec flt_low node deps (graph, visited)
      else if dep \<in> visited
        then crates_for rec flt_low node deps (add_edge graph node dep, visited)
      else (case rec dep (add_edge graph node dep, visited) of
              None \<Rightarrow> None
            | Some (Inl e) \<Rightarrow> Some (Inl e)
            | Some (Inr st) \<Rightarrow> crates_for rec flt_low node deps st))"

primrec crates_dfs ::
  "network \<Rightarrow> string \<Rightarrow> nat \<Rightarrow> string \<Rightarrow> graph \<times> string set
     \<Rightarrow> (graph \<times> string set) result option" where
  "crates_dfs net flt_low 0 = (\<lambda>node st. None)"
| "crates_dfs net flt_low (Suc fuel) = (\<lambda>node st.
     if excluded flt_low node then Some (Inr st)
     else if node \<in> snd st then Some (Inr st)
     else (case fetch_deps net node of
             Inl Exception \<Rightarrow> Some (Inr (fst st, insert node (snd st)))
           | Inl (SystemExit code) \<Rightarrow> Some (Inl (SystemExit code))
           | Inr deps \<Rightarrow>
               crates_for (crates_dfs net flt_low fuel) flt_low node deps
                 (fst st, insert node (snd st))))"

definition build_graph_cratesio :: "network \<Rightarrow> nat \<Rightarrow> string \<Rightarrow> string \<Rightarrow> graph result option" where
  "build_graph_cratesio net fuel root flt =
     (case crates_dfs net (lower flt) fuel root ([], {}) of
        None \<Rightarrow> None
      | Some (Inl e) \<Rightarrow> Some (Inl e)
      | Some (Inr st) \<Rightarrow> Some (Inr (fst st)))"

section \<open>A small registry\<close>

text \<open>
  A registry for the examples: crate \<open>a\<close> depends on \<open>b\<close>, \<open>c\<close> and itself, \<open>b\<close> on \<open>c\<close>;
  the fetch for \<open>c\<close> raises an exception that is no \<^verbatim>\<open>SystemExit\<close>; every other URL
  cannot be reached.
\<close>

definition normal_dep :: "string \<Rightarrow> dependency" where
  "normal_dep n = \<lparr>crate_id = n, req = Some ''^1'', kind = Some ''normal'', optional = False\<rparr>"

definition version_1 :: body where
  "version_1 = \<lparr>newest_version = Some ''1.0.0'', versions = [], dependencies = []\<rparr>"

definition deps_body :: "string list \<Rightarrow> body" where
  "deps_body ns = \<lparr>newest_version = None, versions = [], dependencies = map normal_dep ns\<rparr>"

definition example_net :: network where
  "example_net url =
     (if url = ''https://crates.io/api/v1/crates/a'' then Json version_1
      else if url = ''https://crates.io/api/v1/crates/a/1.0.0/dependencies''
        then Json (deps_body [''b'', ''c'', ''a''])
      else if url = ''https://crates.io/api/v1/crates/b'' then Json version_1
      else if url = ''https://crates.io/api/v1/crates/b/1.0.0/dependencies''
        then Json (deps_body [''c''])
      else if url = ''https://crates.io/api/v1/crates/c'' then OtherError
      else URLError)"

text \<open>The same registry when \<open>c\<close> cannot be reached.\<close>

definition example_net_down :: network where
  "example_net_down url =
     (if url = ''https://crates.io/api/v1/crates/c'' then URLError else example_net url)"

text \<open>The test repository of the documentation of \<^verbatim>\<open>load_test_graph\<close>, and its graph.\<close>

definition test_repository :: "string list" where
  "test_repository = [''A: B C\<newline>'', ''B: C\<newline>'', ''C:\<newline>'']"

definition test_graph :: graph where
  "test_graph = [(''A'', [''B'', ''C'']), (''B'', [''C'']), (''C'', [])]"

section \<open>Vocabulary of the properties\<close>

text \<open>
  A walk from \<open>a\<close> to \<open>b\<close> along edges of \<open>g\<close>: \<open>p\<close> lists the nodes after \<open>a\<close>, none of
  which the filter excludes.
\<close>

fun clean_walk :: "graph \<Rightarrow> string \<Rightarrow> string \<Rightarrow> string list \<Rightarrow> string \<Rightarrow> bool" where
  "clean_walk g flt_low a [] b = (a = b)"
| "clean_walk g flt_low a (x # xs) b =
     ((a, x) \<in> edges g \<and> \<not> excluded flt_low x \<and> clean_walk g flt_low x xs b)"

text \<open>No key holds an empty set.\<close>

definition nonempty_sets :: "graph \<Rightarrow> bool" where
  "nonempty_sets g = list_all (\<lambda>(u, s). s \<noteq> []) g"

text \<open>The filter excludes no key and no neighbour of a key.\<close>

definition filter_free :: "string \<Rightarrow> graph \<Rightarrow> bool" where
  "filter_free flt_low g =
     list_all (\<lambda>(u, s). \<not> excluded flt_low u \<and> list_all (\<lambda>v. \<not> excluded flt_low v) s) g"

text \<open>
  The edges as \<^verbatim>\<open>g.get\<close> reads them, and the invariant of the loop of \<^verbatim>\<open>reachable\<close>: what
  is seen is reached from the start node, the deque holds the start node or seen nodes,
  and the neighbours of every node that has left the deque are seen.
\<close>

definition get_edges :: "graph \<Rightarrow> (string \<times> string) set" where
  "get_edges g = {(a, b). b \<in> set (get g a)}"

definition bfs_inv :: "graph \<Rightarrow> string \<Rightarrow> bfs_state \<Rightarrow> bool" where
  "bfs_inv g start st \<longleftrightarrow>
     set (seen st) \<subseteq> (get_edges g)\<^sup>+ `` {start} \<and>
     set (dq st) \<subseteq> insert start (set (seen st)) \<and>
     get_edges g `` (insert start (set (seen st)) - set (dq st)) \<subseteq> set (seen st)"

section \<open>Facts about the edge store\<close>

lemma get_add_edge:
  "get (add_edge out u v) x = (if x = u then set_add (get out u) v else get out x)"
  by (induction out) (auto simp: get_def set_add_def)

lemma keys_add_edge: "fst ` set (add_edge out u v) = insert u (fst ` set out)"
  by (induction out u v rule: add_edge.induct) auto

lemma edges_Nil: "edges [] = {}"
  by (simp add: edges_def edge_list_def)

lemma edges_Cons: "edges ((k, s) # g) = (\<lambda>v. (k, v)) ` set s \<union> edges g"
  by (auto simp: edges_def edge_list_def)

lemma edges_iff: "(u, v) \<in> edges g \<longleftrightarrow> (\<exists>s. (u, s) \<in> set g \<and> v \<in> set s)"
  by (induction g) (auto simp: edges_Nil edges_Cons)

lemma edges_add_edge: "edges (add_edge out u v) = insert (u, v) (edges out)"
  by (induction out u v rule: add_edge.induct) (auto simp: edges_Nil edges_Cons set_add_def)

lemma edges_setdefault: "edges (setdefault r u) = edges r"
  by (induction r u rule: setdefault.induct) (auto simp: edges_Nil edges_Cons)

lemma get_edge: "v \<in> set (get g u) \<Longrightarrow> (u, v) \<in> edges g"
proof -
  assume "v \<in> set (get g u)"
  then obtain s where "map_of g u = Some s" "v \<in> set s"
    by (cases "map_of g u") (auto simp: get_def)
  then show ?thesis
    by (auto simp: edges_iff dest: map_of_SomeD)
qed

lemma edge_get: "distinct (map fst g) \<Longrightarrow> (u, v) \<in> edges g \<Longrightarrow> v \<in> set (get g u)"
  by (auto simp: get_def edges_iff)

lemma nonempty_add_edge: "nonempty_sets out \<Longrightarrow> nonempty_sets (add_edge out u v)"
  by (induction out u v rule: add_edge.induct) (auto simp: nonempty_sets_def set_add_def)

lemma nonempty_keys: "nonempty_sets g \<Longrightarrow> set (keys g) = fst ` edges g"
proof (induction g)
  case Nil
  then show ?case by (simp add: keys_def edges_Nil)
next
  case (Cons e g)
  obtain k s where e: "e = (k, s)" by (cases e)
  from Cons.prems e have s: "s \<noteq> []" and g: "nonempty_sets g"
    by (simp_all add: nonempty_sets_def)
  from s have "fst ` (\<lambda>v. (k, v)) ` set s = {k}" by (cases s) auto
  with Cons.IH[OF g] e show ?case
    by (simp add: keys_def edges_Cons image_Un)
qed

lemma filter_free_add_edge:
  "filter_free f out \<Longrightarrow> \<not> excluded f u \<Longrightarrow> \<not> excluded f v \<Longrightarrow> filter_free f (add_edge out u v)"
  by (induction out u v rule: add_edge.induct) (auto simp: filter_free_def set_add_def)

lemma filter_free_iff:
  "filter_free f g \<longleftrightarrow>
     (\<forall>u \<in> set (keys g). \<not> excluded f u) \<and> (\<forall>v \<in> snd ` edges g. \<not> excluded f v)"
proof -
  have "(\<forall>v \<in> snd ` edges g. \<not> excluded f v) \<longleftrightarrow> (\<forall>(u, s) \<in> set g. \<forall>v \<in> set s. \<not> excluded f v)"
  proof (intro iffI ballI)
    fix e assume a: "\<forall>v \<in> snd ` edges g. \<not> excluded f v" and e: "e \<in> set g"
    obtain u s where us: "e = (u, s)" by (cases e)
    have "\<forall>v \<in> set s. \<not> excluded f v"
    proof
      fix v assume "v \<in> set s"
      with e us have "(u, v) \<in> edges g" by (auto simp: edges_iff)
      then have "v \<in> snd ` edges g" by force
      with a show "\<not> excluded f v" by blast
    qed
    with us show "case e of (u, s) \<Rightarrow> \<forall>v \<in> set s. \<not> excluded f v" by simp
  next
    fix v assume a: "\<forall>(u, s) \<in> set g. \<forall>v \<in> set s. \<not> excluded f v" and "v \<in> snd ` edges g"
    then obtain u where "(u, v) \<in> edges g" by auto
    then obtain s where "(u, s) \<in> set g" "v \<in> set s" by (auto simp: edges_iff)
    with a show "\<not> excluded f v" by blast
  qed
  moreover have "(\<forall>u \<in> set (keys g). \<not> excluded f u) \<longleftrightarrow> (\<forall>(u, s) \<in> set g. \<not> excluded f u)"
    by (fastforce simp: keys_def)
  ultimately show ?thesis
    unfolding filter_free_def list_all_iff by blast
qed

lemma lower_Nil_iff: "lower f = [] \<longleftrightarrow> f = []"
  by (simp add: lower_def)

section \<open>The filter-pruned traversal\<close>

lemma dfs_visited_mono:
  "snd st \<subseteq> snd (dfs g f u st)"
  "snd st \<subseteq> snd (dfs_for g f u vs st)"
proof (induction g f u st and g f u vs st rule: dfs_dfs_for.induct)
  case (1 g flt_low u out visited)
  then show ?case by (auto simp: dfs.simps)
qed auto

lemma dfs_nonempty:
  "nonempty_sets (fst st) \<Longrightarrow> nonempty_sets (fst (dfs g f u st))"
  "nonempty_sets (fst st) \<Longrightarrow> nonempty_sets (fst (dfs_for g f u vs st))"
proof (induction g f u st and g f u vs st rule: dfs_dfs_for.induct)
  case (1 g flt_low u out visited)
  then show ?case by (auto simp: dfs.simps)
qed (auto simp: nonempty_add_edge)

lemma dfs_edges:
  "edges (fst (dfs g f u st)) \<subseteq> edges (fst st) \<union> edges g"
  "set vs \<subseteq> set (get g u) \<Longrightarrow> edges (fst (dfs_for g f u vs st)) \<subseteq> edges (fst st) \<union> edges g"
proof (induction g f u st and g f u vs st rule: dfs_dfs_for.induct)
  case (1 g flt_low u out visited)
  then show ?case by (auto simp: dfs.simps)
next
  case (3 g flt_low u v vs out visited)
  then show ?case by (auto simp: edges_add_edge dest: get_edge)
qed auto

text \<open>A key of the result was a key before or has been visited.\<close>

lemma dfs_keys:
  "fst ` set (fst (dfs g f u st)) \<subseteq> fst ` set (fst st) \<union> snd (dfs g f u st)"
  "u \<in> snd st \<Longrightarrow>
     fst ` set (fst (dfs_for g f u vs st)) \<subseteq> fst ` set (fst st) \<union> snd (dfs_for g f u vs st)"
proof (induction g f u st and g f u vs st rule: dfs_dfs_for.induct)
  case (1 g flt_low u out visited)
  then show ?case by (auto simp: dfs.simps)
next
  case (2 g flt_low u out visited)
  then show ?case by simp
next
  case (3 g flt_low u v vs out visited)
  show ?case
  proof (cases "excluded flt_low v")
    case True
    with 3 show ?thesis by simp
  next
    case False
    let ?st1 = "dfs g flt_low v (add_edge out u v, visited)"
    have m1: "visited \<subseteq> snd ?st1"
      using dfs_visited_mono(1)[of "(add_edge out u v, visited)"] by simp
    have m2: "snd ?st1 \<subseteq> snd (dfs_for g flt_low u vs ?st1)"
      by (rule dfs_visited_mono(2))
    have u1: "u \<in> snd ?st1" using m1 3(4) by auto
    have k1: "fst ` set (fst ?st1) \<subseteq> insert u (fst ` set out) \<union> snd ?st1"
      using 3(2)[OF False] by (simp add: keys_add_edge)
    have k2: "fst ` set (fst (dfs_for g flt_low u vs ?st1))
        \<subseteq> fst ` set (fst ?st1) \<union> snd (dfs_for g flt_low u vs ?st1)"
      using 3(3)[OF False u1] by simp
    have eq: "dfs_for g flt_low u (v # vs) (out, visited) = dfs_for g flt_low u vs ?st1"
      using False by simp
    show ?thesis unfolding eq fst_conv using k1 k2 m2 u1 by blast
  qed
qed

text \<open>
  A node that a call visits is reached from the node of the call by a walk over nodes
  that the filter lets pass.
\<close>

lemma dfs_walk:
  "x \<in> snd (dfs g f u st) \<Longrightarrow> x \<notin> snd st \<Longrightarrow>
     \<not> excluded f u \<and> (\<exists>p. clean_walk g f u p x)"
  "set vs \<subseteq> set (get g u) \<Longrightarrow> x \<in> snd (dfs_for g f u vs st) \<Longrightarrow> x \<notin> snd st \<Longrightarrow>
     (\<exists>p. clean_walk g f u p x)"
proof (induction g f u st and g f u vs st arbitrary: x and x rule: dfs_dfs_for.induct)
  case (1 g flt_low u out visited)
  show ?case
  proof (cases "u \<in> visited \<or> excluded flt_low u")
    case True
    then have "dfs g flt_low u (out, visited) = (out, visited)"
      by (auto simp: dfs.simps)
    with 1(2,3) show ?thesis by simp
  next
    case False
    then have eq: "dfs g flt_low u (out, visited) =
        dfs_for g flt_low u (get g u) (out, insert u visited)"
      by (simp add: dfs.simps)
    show ?thesis
    proof (cases "x = u")
      case True
      have "clean_walk g flt_low u [] u" by simp
      with True False show ?thesis by blast
    next
      case xu: False
      have "\<exists>p. clean_walk g flt_low u p x"
        using 1(1)[of x] False 1(2,3) xu eq by auto
      with False show ?thesis by simp
    qed
  qed
next
  case (2 g flt_low u out visited)
  then show ?case by simp
next
  case (3 g flt_low u v vs out visited)
  show ?case
  proof (cases "excluded flt_low v")
    case True
    with 3 show ?thesis by simp
  next
    case False
    let ?st1 = "dfs g flt_low v (add_edge out u v, visited)"
    have uv: "(u, v) \<in> edges g" using 3(4) by (auto intro: get_edge)
    have vs: "set vs \<subseteq> set (get g u)" using 3(4) by simp
    have xin: "x \<in> snd (dfs_for g flt_low u vs ?st1)" using 3(5) False by simp
    show ?thesis
    proof (cases "x \<in> snd ?st1")
      case True
      then obtain p where "clean_walk g flt_low v p x"
        using 3(2)[OF False, of x] 3(6) by auto
      then have "clean_walk g flt_low u (v # p) x" using uv False by simp
      then show ?thesis by blast
    next
      case nx: False
      show ?thesis using 3(3)[OF False vs xin] nx by simp
    qed
  qed
qed

lemma dfs_prune_edges: "edges (dfs_prune_by_filter g start flt) \<subseteq> edges g"
  using dfs_edges(1)[of g "lower flt" start "([], {})"]
  by (simp add: dfs_prune_by_filter_def dfs_prune_state_def edges_Nil)

lemma dfs_prune_keys_visited:
  "set (keys (dfs_prune_by_filter g start flt)) \<subseteq> snd (dfs_prune_state g start flt)"
  using dfs_keys(1)[of g "lower flt" start "([], {})"]
  by (simp add: dfs_prune_by_filter_def dfs_prune_state_def keys_def)

lemma dfs_prune_nonempty: "nonempty_sets (dfs_prune_by_filter g start flt)"
  using dfs_nonempty(1)[of "([], {})" g "lower flt" start]
  by (simp add: dfs_prune_by_filter_def dfs_prune_state_def nonempty_sets_def)

lemmas filter_eval = excluded_def lower_def lower_char_def upper_letters_def lower_letters_def

lemmas dfs_eval = dfs_prune_by_filter_def dfs_prune_state_def dfs.simps get_def set_add_def
  keys_def edges_def edge_list_def

text \<open>
  C2. The claim: when the start node matches a non-empty filter, the initiating call still
  visits it, expands it and records its children that do not match. On the graph
  \<open>A: B\<close> with start \<open>A\<close> and filter \<open>a\<close> the start matches, its child \<open>B\<close> does not, and
  yet \<open>A\<close> is not visited and the edge from \<open>A\<close> to \<open>B\<close> is not recorded.
\<close>

theorem dfs_prune_matching_start_counterexample:
  "''a'' \<noteq> [] \<and> str_in (lower ''a'') (lower ''A'') \<and>
   ''B'' \<in> set (get [(''A'', [''B''])] ''A'') \<and> \<not> excluded (lower ''a'') ''B'' \<and>
   ''A'' \<notin> snd (dfs_prune_state [(''A'', [''B''])] ''A'' ''a'') \<and>
   (''A'', ''B'') \<notin> edges (dfs_prune_by_filter [(''A'', [''B''])] ''A'' ''a'')"
  by (simp add: filter_eval dfs_eval)

text \<open>
  C2, amended. The check of the filter stands at the head of the inner function and
  applies to the start node as to every other node: when the start node matches a
  non-empty filter, the traversal visits nothing and returns the empty graph.
\<close>

theorem dfs_prune_matching_start:
  "flt \<noteq> [] \<Longrightarrow> str_in (lower flt) (lower start) \<Longrightarrow>
     dfs_prune_state g start flt = ([], {}) \<and> dfs_prune_by_filter g start flt = []"
  by (simp add: dfs_prune_by_filter_def dfs_prune_state_def dfs.simps excluded_def lower_Nil_iff)

theorem dfs_prune_matching_start_witness:
  "''a'' \<noteq> [] \<and> str_in (lower ''a'') (lower ''A'') \<and>
   dfs_prune_state [(''A'', [''B''])] ''A'' ''a'' = ([], {}) \<and>
   dfs_prune_by_filter [(''A'', [''B''])] ''A'' ''a'' = []"
proof -
  have h1: "''a'' \<noteq> []" by simp
  have h2: "str_in (lower ''a'') (lower ''A'')" by (simp add: filter_eval)
  show ?thesis
    using h1 h2 dfs_prune_matching_start[OF h1 h2, of "[(''A'', [''B''])]"] by simp
qed

text \<open>
  C10. The output of the traversal is a sound subgraph of its input: every edge of the
  output is an edge of \<open>g\<close>, and every key of the output is reached from the start node
  by a walk in \<open>g\<close> none of whose nodes, the start node included, matches the filter.
\<close>

theorem dfs_prune_sound:
  "edges (dfs_prune_by_filter g start flt) \<subseteq> edges g \<and>
   (\<forall>u \<in> set (keys (dfs_prune_by_filter g start flt)).
      \<not> excluded (lower flt) start \<and> (\<exists>p. clean_walk g (lower flt) start p u))"
proof (rule conjI, rule dfs_prune_edges, rule ballI)
  fix u assume "u \<in> set (keys (dfs_prune_by_filter g start flt))"
  then have "u \<in> snd (dfs g (lower flt) start ([], {}))"
    using dfs_prune_keys_visited[of g start flt] by (auto simp: dfs_prune_state_def)
  then show "\<not> excluded (lower flt) start \<and> (\<exists>p. clean_walk g (lower flt) start p u)"
    using dfs_walk(1)[of u g "lower flt" start "([], {})"] by simp
qed

theorem dfs_prune_sound_witness:
  "''B'' \<in> set (keys (dfs_prune_by_filter
      [(''A'', [''B'', ''C'']), (''B'', [''C'', ''A'']), (''C'', [])] ''A'' ''c'')) \<and>
   (''B'', ''A'') \<in> edges (dfs_prune_by_filter
      [(''A'', [''B'', ''C'']), (''B'', [''C'', ''A'']), (''C'', [])] ''A'' ''c'') \<and>
   (''B'', ''A'') \<in> edges [(''A'', [''B'', ''C'']), (''B'', [''C'', ''A'']), (''C'', [])] \<and>
   \<not> excluded (lower ''c'') ''A'' \<and>
   (\<exists>p. clean_walk [(''A'', [''B'', ''C'']), (''B'', [''C'', ''A'']), (''C'', [])]
      (lower ''c'') ''A'' p ''B'')"
proof -
  let ?g = "[(''A'', [''B'', ''C'']), (''B'', [''C'', ''A'']), (''C'', [])]"
  have out: "dfs_prune_by_filter ?g ''A'' ''c'' = [(''A'', [''B'']), (''B'', [''A''])]"
    by (simp add: filter_eval dfs_eval)
  have k: "''B'' \<in> set (keys (dfs_prune_by_filter ?g ''A'' ''c''))"
    by (simp add: out keys_def)
  have e: "(''B'', ''A'') \<in> edges (dfs_prune_by_filter ?g ''A'' ''c'')"
    by (simp add: out edges_def edge_list_def)
  from dfs_prune_sound[of ?g "''A''" "''c''"] k e show ?thesis by blast
qed

section \<open>The remote graph builder\<close>

text \<open>
  The fuel only bounds the depth of the recursion: a run that ends with some fuel ends
  with the same outcome with any more.
\<close>

lemma crates_for_more_fuel:
  assumes rec: "\<And>dep st r. rec dep st = Some r \<Longrightarrow> rec' dep st = Some r"
  shows "crates_for rec f node deps st = Some r \<Longrightarrow> crates_for rec' f node deps st = Some r"
proof (induction deps arbitrary: st)
  case Nil
  then show ?case by (cases st) simp
next
  case (Cons d deps)
  obtain dep rq k where d: "d = (dep, rq, k)" by (cases d)
  obtain graph visited where st: "st = (graph, visited)" by (cases st)
  show ?case
  proof (cases "excluded f dep \<or> dep \<in> visited")
    case True
    with Cons d st show ?thesis by auto
  next
    case False
    show ?thesis
    proof (cases "rec dep (add_edge graph node dep, visited)")
      case None
      with Cons.prems d st False show ?thesis by simp
    next
      case (Some a)
      note r' = rec[OF Some]
      show ?thesis
      proof (cases a)
        case (Inl e)
        with Cons.prems d st False Some r' show ?thesis by auto
      next
        case (Inr st1)
        with Cons.prems d st False Some have "crates_for rec f node deps st1 = Some r" by simp
        from Cons.IH[OF this] d st False r' Inr show ?thesis by simp
      qed
    qed
  qed
qed

lemma crates_dfs_Suc_fuel:
  "crates_dfs net f fuel node st = Some r \<Longrightarrow> crates_dfs net f (Suc fuel) node st = Some r"
proof (induction fuel arbitrary: node st r)
  case 0
  then show ?case by simp
next
  case (Suc fuel)
  show ?case
  proof (cases "excluded f node \<or> node \<in> snd st")
    case True
    with Suc.prems show ?thesis by (auto split: if_splits)
  next
    case False
    show ?thesis
    proof (cases "fetch_deps net node")
      case (Inl e)
      with Suc.prems False show ?thesis by (cases e) auto
    next
      case (Inr deps)
      with Suc.prems False
      have "crates_for (crates_dfs net f fuel) f node deps (fst st, insert node (snd st)) = Some r"
        by simp
      from crates_for_more_fuel[of "crates_dfs net f fuel" "crates_dfs net f (Suc fuel)", OF Suc.IH this]
      show ?thesis using False Inr by simp
    qed
  qed
qed

lemma crates_dfs_more_fuel:
  "crates_dfs net f fuel node st = Some r \<Longrightarrow> fuel \<le> fuel' \<Longrightarrow>
     crates_dfs net f fuel' node st = Some r"
proof (induction "fuel' - fuel" arbitrary: fuel')
  case 0
  then show ?case by simp
next
  case (Suc k)
  then obtain m where m: "fuel' = Suc m" "fuel \<le> m" "k = m - fuel"
    by (cases fuel') auto
  from Suc.hyps(1)[OF m(3) Suc.prems(1) m(2)] m(1) show ?case
    by (simp only: crates_dfs_Suc_fuel)
qed

lemma build_graph_more_fuel:
  "build_graph_cratesio net fuel root flt = Some r \<Longrightarrow> fuel \<le> fuel' \<Longrightarrow>
     build_graph_cratesio net fuel' root flt = Some r"
proof -
  assume a: "build_graph_cratesio net fuel root flt = Some r" and le: "fuel \<le> fuel'"
  then obtain r0 where r0: "crates_dfs net (lower flt) fuel root ([], {}) = Some r0"
    by (auto simp: build_graph_cratesio_def split: option.splits)
  from crates_dfs_more_fuel[OF r0 le] r0 a show ?thesis
    by (simp add: build_graph_cratesio_def)
qed

text \<open>
  A property of the graph that recording an edge between nodes the filter lets pass
  preserves is preserved by the loop, given that the recursive calls preserve it, and so
  by the builder.
\<close>

lemma crates_for_preserves:
  assumes rec: "\<And>dep st st'. rec dep st = Some (Inr st') \<Longrightarrow> I (fst st) \<Longrightarrow> I (fst st')"
    and add: "\<And>gr dep. I gr \<Longrightarrow> \<not> excluded f dep \<Longrightarrow> I (add_edge gr node dep)"
  shows "crates_for rec f node deps st = Some (Inr st') \<Longrightarrow> I (fst st) \<Longrightarrow> I (fst st')"
proof (induction deps arbitrary: st)
  case Nil
  then show ?case by (cases st) simp
next
  case (Cons d deps)
  obtain dep r k where d: "d = (dep, r, k)" by (cases d)
  obtain graph visited where st: "st = (graph, visited)" by (cases st)
  show ?case
  proof (cases "excluded f dep")
    case True
    with Cons d st show ?thesis by simp
  next
    case False
    with Cons.prems(2) st have I1: "I (add_edge graph node dep)" by (simp add: add)
    show ?thesis
    proof (cases "dep \<in> visited")
      case True
      with Cons.prems(1) d st False
      have "crates_for rec f node deps (add_edge graph node dep, visited) = Some (Inr st')"
        by simp
      from Cons.IH[OF this] I1 show ?thesis by simp
    next
      case nv: False
      with Cons.prems(1) d st False obtain st1 where
        r1: "rec dep (add_edge graph node dep, visited) = Some (Inr st1)" and
        r2: "crates_for rec f node deps st1 = Some (Inr st')"
        by (auto split: option.splits sum.splits)
      from rec[OF r1] I1 have "I (fst st1)" by simp
      with Cons.IH[OF r2] show ?thesis by simp
    qed
  qed
qed

lemma crates_dfs_preserves:
  assumes add: "\<And>gr node dep. I gr \<Longrightarrow> \<not> excluded f node \<Longrightarrow> \<not> excluded f dep
      \<Longrightarrow> I (add_edge gr node dep)"
  shows "crates_dfs net f fuel node st = Some (Inr st') \<Longrightarrow> I (fst st) \<Longrightarrow> I (fst st')"
proof (induction fuel arbitrary: node st st')
  case 0
  then show ?case by simp
next
  case (Suc fuel)
  show ?case
  proof (cases "excluded f node \<or> node \<in> snd st")
    case True
    with Suc.prems(1) have "st' = st" by (auto split: if_splits)
    with Suc.prems(2) show ?thesis by simp
  next
    case False
    show ?thesis
    proof (cases "fetch_deps net node")
      case (Inl e)
      with Suc.prems False show ?thesis by (cases e) auto
    next
      case (Inr deps)
      with Suc.prems(1) False
      have run: "crates_for (crates_dfs net f fuel) f node deps (fst st, insert node (snd st))
          = Some (Inr st')"
        by simp
      show ?thesis
      proof (rule crates_for_preserves[where I = I, OF _ _ run])
        show "\<And>dep st st'. crates_dfs net f fuel dep st = Some (Inr st') \<Longrightarrow> I (fst st)
            \<Longrightarrow> I (fst st')"
          by (rule Suc.IH)
        show "\<And>gr dep. I gr \<Longrightarrow> \<not> excluded f dep \<Longrightarrow> I (add_edge gr node dep)"
          using False by (simp add: add)
        show "I (fst (fst st, insert node (snd st)))"
          using Suc.prems(2) by simp
      qed
    qed
  qed
qed

lemma build_graph_preserves:
  assumes add: "\<And>gr node dep. I gr \<Longrightarrow> \<not> excluded (lower flt) node
      \<Longrightarrow> \<not> excluded (lower flt) dep \<Longrightarrow> I (add_edge gr node dep)"
    and init: "I []"
    and run: "build_graph_cratesio net fuel root flt = Some (Inr gr)"
  shows "I gr"
proof -
  from run obtain st' where
    "crates_dfs net (lower flt) fuel root ([], {}) = Some (Inr st')" and "gr = fst st'"
    by (auto simp: build_graph_cratesio_def split: option.splits sum.splits)
  with crates_dfs_preserves[where I = I and f = "lower flt", OF add, of net fuel root "([], {})" st']
    init show ?thesis by simp
qed

lemma build_graph_nonempty:
  "build_graph_cratesio net fuel root flt = Some (Inr gr) \<Longrightarrow> nonempty_sets gr"
  by (rule build_graph_preserves[where I = nonempty_sets])
     (simp_all add: nonempty_add_edge, simp add: nonempty_sets_def)

lemma build_graph_filter_free:
  "build_graph_cratesio net fuel root flt = Some (Inr gr) \<Longrightarrow> filter_free (lower flt) gr"
  by (rule build_graph_preserves[where I = "filter_free (lower flt)"])
     (simp_all add: filter_free_add_edge, simp add: filter_free_def)

text \<open>
  C1. The claim: a failure of the fetch for one node is swallowed, the node counts as a
  leaf and the builder returns a graph. The handler is \<^verbatim>\<open>except Exception\<close>, and the
  three failures the claim names end in \<^verbatim>\<open>fail\<close>, which raises \<^verbatim>\<open>SystemExit\<close>: the
  handler does not catch it and it leaves the builder. So it is when the registry cannot
  be reached, when it sends no JSON, and when a crate has no version, for every root and
  every positive fuel; and when only the dependency \<open>c\<close> of the example registry cannot
  be reached, the builder does not return the graph of \<open>a\<close> and \<open>b\<close> either.
\<close>

theorem build_graph_fetch_failure_exits:
  "build_graph_cratesio (\<lambda>url. URLError) (Suc fuel) root [] = Some (Inl (SystemExit 2)) \<and>
   build_graph_cratesio (\<lambda>url. JSONDecodeError) (Suc fuel) root [] = Some (Inl (SystemExit 2)) \<and>
   build_graph_cratesio
     (\<lambda>url. Json \<lparr>newest_version = None, versions = [], dependencies = []\<rparr>) (Suc fuel) root []
     = Some (Inl (SystemExit 2)) \<and>
   build_graph_cratesio example_net_down 3 ''a'' [] = Some (Inl (SystemExit 2))"
proof -
  have "build_graph_cratesio example_net_down 3 ''a'' [] = Some (Inl (SystemExit 2))"
    by code_simp
  then show ?thesis
    by (simp add: build_graph_cratesio_def fetch_deps_def crates_latest_version_def
        http_get_json_def fail_def excluded_def lower_def)
qed

text \<open>
  C8. In the graph the builder returns, no node whose lowercase name contains the lowercase
  form of a non-empty filter appears, neither as a key nor as the target of an edge.
\<close>

theorem build_graph_excludes_filtered:
  "build_graph_cratesio net fuel root flt = Some (Inr gr) \<Longrightarrow> flt \<noteq> [] \<Longrightarrow>
     str_in (lower flt) (lower n) \<Longrightarrow> n \<notin> set (keys gr) \<and> n \<notin> snd ` edges gr"
proof -
  assume run: "build_graph_cratesio net fuel root flt = Some (Inr gr)"
    and "flt \<noteq> []" and "str_in (lower flt) (lower n)"
  then have "excluded (lower flt) n"
    by (simp add: excluded_def lower_Nil_iff)
  with build_graph_filter_free[OF run] show ?thesis
    by (auto simp: filter_free_iff)
qed

theorem build_graph_excludes_filtered_witness:
  "build_graph_cratesio example_net 3 ''a'' [] = Some (Inr [(''a'', [''b'', ''c'', ''a'']), (''b'', [''c''])]) \<and>
   build_graph_cratesio example_net 3 ''a'' ''B'' = Some (Inr [(''a'', [''c'', ''a''])]) \<and>
   ''B'' \<noteq> [] \<and> str_in (lower ''B'') (lower ''b'') \<and>
   ''b'' \<notin> set (keys [(''a'', [''c'', ''a''])]) \<and> ''b'' \<notin> snd ` edges [(''a'', [''c'', ''a''])]"
proof -
  have h0: "build_graph_cratesio example_net 3 ''a'' [] =
      Some (Inr [(''a'', [''b'', ''c'', ''a'']), (''b'', [''c''])])"
    by code_simp
  have h1: "build_graph_cratesio example_net 3 ''a'' ''B'' = Some (Inr [(''a'', [''c'', ''a''])])"
    by code_simp
  have h2: "''B'' \<noteq> []" by simp
  have h3: "str_in (lower ''B'') (lower ''b'')" by (simp add: filter_eval)
  from build_graph_excludes_filtered[OF h1 h2 h3] h0 h1 h2 h3 show ?thesis by simp
qed

text \<open>
  C3. The claim: in the graphs the program builds every traversal root and every edge
  endpoint, every visited node, is a key, leaves and pure edge targets with an empty set.
  On the test repository \<open>A: B\<close>, \<open>B:\<close> the traversal from \<open>A\<close> visits \<open>B\<close> and records
  the edge to it, and \<open>B\<close> is no key of the output; the builder on the example registry
  records edges to \<open>c\<close>, and \<open>c\<close> is no key of its graph.
\<close>

theorem key_presence_counterexample:
  "''B'' \<in> snd (dfs_prune_state [(''A'', [''B'']), (''B'', [])] ''A'' []) \<and>
   (''A'', ''B'') \<in> edges (dfs_prune_by_filter [(''A'', [''B'']), (''B'', [])] ''A'' []) \<and>
   ''B'' \<notin> set (keys (dfs_prune_by_filter [(''A'', [''B'']), (''B'', [])] ''A'' [])) \<and>
   build_graph_cratesio example_net 3 ''a'' [] =
     Some (Inr [(''a'', [''b'', ''c'', ''a'']), (''b'', [''c''])]) \<and>
   ''c'' \<notin> set (keys [(''a'', [''b'', ''c'', ''a'']), (''b'', [''c''])])"
proof -
  have "build_graph_cratesio example_net 3 ''a'' [] =
      Some (Inr [(''a'', [''b'', ''c'', ''a'']), (''b'', [''c''])])"
    by code_simp
  then show ?thesis
    by (simp add: filter_eval dfs_eval)
qed

text \<open>
  C3, amended. In the outputs of \<^verbatim>\<open>dfs_prune_by_filter\<close> and \<^verbatim>\<open>build_graph_cratesio\<close> a key
  is created when the first edge out of a node is recorded and not before: every key
  holds a non-empty set, and the keys are exactly the sources of the recorded edges. A
  visited node without a recorded dependency (a root without dependencies, a leaf, a pure
  edge target) is absent as a key.
\<close>

theorem keys_are_edge_sources:
  "nonempty_sets (dfs_prune_by_filter g start flt) \<and>
   set (keys (dfs_prune_by_filter g start flt)) = fst ` edges (dfs_prune_by_filter g start flt) \<and>
   (build_graph_cratesio net fuel root flt' = Some (Inr gr) \<longrightarrow>
      nonempty_sets gr \<and> set (keys gr) = fst ` edges gr)"
  by (simp add: dfs_prune_nonempty nonempty_keys build_graph_nonempty)

theorem keys_are_edge_sources_witness:
  "set (keys (dfs_prune_by_filter [(''A'', [''B'']), (''B'', [])] ''A'' [])) = {''A''} \<and>
   fst ` edges (dfs_prune_by_filter [(''A'', [''B'']), (''B'', [])] ''A'' []) = {''A''} \<and>
   build_graph_cratesio example_net 3 ''a'' [] =
     Some (Inr [(''a'', [''b'', ''c'', ''a'']), (''b'', [''c''])]) \<and>
   nonempty_sets [(''a'', [''b'', ''c'', ''a'']), (''b'', [''c''])] \<and>
   set (keys [(''a'', [''b'', ''c'', ''a'']), (''b'', [''c''])]) =
     fst ` edges [(''a'', [''b'', ''c'', ''a'']), (''b'', [''c''])]"
proof -
  have h: "build_graph_cratesio example_net 3 ''a'' [] =
      Some (Inr [(''a'', [''b'', ''c'', ''a'']), (''b'', [''c''])])"
    by code_simp
  have k: "set (keys (dfs_prune_by_filter [(''A'', [''B'']), (''B'', [])] ''A'' [])) = {''A''}"
    by (simp add: filter_eval dfs_eval)
  from keys_are_edge_sources[of "[(''A'', [''B'']), (''B'', [])]" "''A''" "[]"
      example_net 3 "''a''" "[]" "[(''a'', [''b'', ''c'', ''a'']), (''b'', [''c''])]"] h k
  show ?thesis by simp
qed

section \<open>Reverse graph\<close>

lemma edges_fold_add:
  "edges (fold (\<lambda>v r. add_edge r v u) nbrs r) = edges r \<union> (\<lambda>v. (v, u)) ` set nbrs"
  by (induction nbrs arbitrary: r) (auto simp: edges_add_edge)

lemma edges_fold_reverse:
  "edges (fold (\<lambda>(u, nbrs) r. setdefault (fold (\<lambda>v r. add_edge r v u) nbrs r) u) g r)
     = edges r \<union> (edges g)\<inverse>"
proof (induction g arbitrary: r)
  case Nil
  then show ?case by (simp add: edges_Nil)
next
  case (Cons e g)
  obtain u nbrs where e: "e = (u, nbrs)" by (cases e)
  show ?case
    by (auto simp: e Cons.IH edges_setdefault edges_fold_add edges_Cons)
qed

lemma edges_reverse_graph: "edges (reverse_graph g) = (edges g)\<inverse>"
  by (simp add: reverse_graph_def edges_fold_reverse edges_Nil)

lemma keys_setdefault: "fst ` set (setdefault r u) = insert u (fst ` set r)"
  by (induction r u rule: setdefault.induct) auto

lemma distinct_add_edge: "distinct (map fst out) \<Longrightarrow> distinct (map fst (add_edge out u v))"
  by (induction out u v rule: add_edge.induct) (auto simp: keys_add_edge)

lemma distinct_setdefault: "distinct (map fst r) \<Longrightarrow> distinct (map fst (setdefault r u))"
  by (induction r u rule: setdefault.induct) (auto simp: keys_setdefault)

lemma distinct_fold_add:
  "distinct (map fst r) \<Longrightarrow> distinct (map fst (fold (\<lambda>v r. add_edge r v u) nbrs r))"
  by (induction nbrs arbitrary: r) (auto simp: distinct_add_edge)

lemma distinct_fold_reverse:
  "distinct (map fst r) \<Longrightarrow>
   distinct (map fst
     (fold (\<lambda>(u, nbrs) r. setdefault (fold (\<lambda>v r. add_edge r v u) nbrs r) u) g r))"
proof (induction g arbitrary: r)
  case Nil
  then show ?case by simp
next
  case (Cons e g)
  obtain u nbrs where e: "e = (u, nbrs)" by (cases e)
  show ?case
    using Cons.prems by (auto simp: e intro!: Cons.IH distinct_setdefault distinct_fold_add)
qed

lemma distinct_reverse_graph: "distinct (keys (reverse_graph g))"
  by (simp add: reverse_graph_def keys_def distinct_fold_reverse)

text \<open>
  C9. Reversing a graph twice gives a graph with exactly the edges of the first.
\<close>

theorem reverse_graph_twice_edges: "edges (reverse_graph (reverse_graph g)) = edges g"
  by (simp add: edges_reverse_graph)

section \<open>Breadth-first reachability\<close>

text \<open>
  What the inner loop does: it appends the same list of fresh nodes, each once, to
  \<^verbatim>\<open>seen\<close>, to the deque and to the history.
\<close>

lemma reachable_for_fresh:
  "\<exists>fr. seen (reachable_for vs st) = seen st @ fr \<and> dq (reachable_for vs st) = dq st @ fr \<and>
        enqueued (reachable_for vs st) = enqueued st @ fr \<and>
        distinct fr \<and> set fr = set vs - set (seen st)"
proof (induction vs arbitrary: st)
  case Nil
  then show ?case by simp
next
  case (Cons v vs)
  show ?case
  proof (cases "v \<in> set (seen st)")
    case True
    from Cons.IH[of st] obtain fr where
      "seen (reachable_for vs st) = seen st @ fr" "dq (reachable_for vs st) = dq st @ fr"
      "enqueued (reachable_for vs st) = enqueued st @ fr" "distinct fr"
      "set fr = set vs - set (seen st)"
      by blast
    with True show ?thesis by auto
  next
    case False
    let ?st1 = "st\<lparr>seen := set_add (seen st) v, dq := dq st @ [v], enqueued := enqueued st @ [v]\<rparr>"
    have s1: "seen ?st1 = seen st @ [v]" using False by (simp add: set_add_def)
    from Cons.IH[of ?st1] obtain fr where fr:
      "seen (reachable_for vs ?st1) = seen ?st1 @ fr" "dq (reachable_for vs ?st1) = dq ?st1 @ fr"
      "enqueued (reachable_for vs ?st1) = enqueued ?st1 @ fr" "distinct fr"
      "set fr = set vs - set (seen ?st1)"
      by blast
    have eq: "reachable_for (v # vs) st = reachable_for vs ?st1" using False by simp
    have "distinct (v # fr)" using fr(4,5) s1 by auto
    moreover have "set (v # fr) = set (v # vs) - set (seen st)"
      using fr(5) s1 False by auto
    moreover have "seen (reachable_for vs ?st1) = seen st @ (v # fr)" using fr(1) s1 by simp
    moreover have "dq (reachable_for vs ?st1) = dq st @ (v # fr)" using fr(2) by simp
    moreover have "enqueued (reachable_for vs ?st1) = enqueued st @ (v # fr)" using fr(3) by simp
    ultimately show ?thesis unfolding eq by blast
  qed
qed

text \<open>
  The history is the start node followed by \<^verbatim>\<open>seen\<close> in the order of insertion, and
  \<^verbatim>\<open>seen\<close> has no repetition; the loop ends with an empty deque.
\<close>

lemma reachable_while_history:
  "enqueued st = start # seen st \<Longrightarrow> distinct (seen st) \<Longrightarrow>
     enqueued (reachable_while g st) = start # seen (reachable_while g st) \<and>
     distinct (seen (reachable_while g st)) \<and> dq (reachable_while g st) = []"
proof (induction g st rule: reachable_while.induct)
  case (1 g st)
  show ?case
  proof (cases "dq st")
    case Nil
    with 1(2,3) show ?thesis by (simp add: reachable_while.simps)
  next
    case (Cons u rest)
    let ?st1 = "reachable_for (get g u) (st\<lparr>dq := rest\<rparr>)"
    from reachable_for_fresh[of "get g u" "st\<lparr>dq := rest\<rparr>"] obtain fr where
      "seen ?st1 = seen st @ fr" "enqueued ?st1 = enqueued st @ fr" "distinct fr"
      "set fr = set (get g u) - set (seen st)"
      by auto
    with 1(2,3) have "enqueued ?st1 = start # seen ?st1" "distinct (seen ?st1)"
      by auto
    from 1(1)[OF Cons this] Cons show ?thesis
      by (simp add: reachable_while.simps[of g st])
  qed
qed

lemma reachable_run_history:
  "enqueued (reachable_run g start) = start # reachable g start \<and>
   distinct (reachable g start) \<and> dq (reachable_run g start) = []"
  using reachable_while_history[of "\<lparr>seen = [], dq = [start], enqueued = [start]\<rparr>" start g]
  by (simp add: reachable_run_def reachable_def)

lemma bfs_inv_step:
  assumes inv: "bfs_inv g start st" and dq: "dq st = u # rest"
  shows "bfs_inv g start (reachable_for (get g u) (st\<lparr>dq := rest\<rparr>))"
proof -
  let ?E = "get_edges g"
  let ?st1 = "reachable_for (get g u) (st\<lparr>dq := rest\<rparr>)"
  from reachable_for_fresh[of "get g u" "st\<lparr>dq := rest\<rparr>"] obtain fr where
    s1: "seen ?st1 = seen st @ fr" and d1: "dq ?st1 = rest @ fr" and
    fr: "set fr = set (get g u) - set (seen st)"
    by auto
  have seen1: "set (seen ?st1) = set (seen st) \<union> set (get g u)" using s1 fr by auto
  from inv have i1: "set (seen st) \<subseteq> ?E\<^sup>+ `` {start}"
    and i2: "set (dq st) \<subseteq> insert start (set (seen st))"
    and i3: "?E `` (insert start (set (seen st)) - set (dq st)) \<subseteq> set (seen st)"
    by (simp_all add: bfs_inv_def)
  have u: "u = start \<or> (start, u) \<in> ?E\<^sup>+" using i1 i2 dq by auto
  have a: "set (seen ?st1) \<subseteq> ?E\<^sup>+ `` {start}"
  proof
    fix v assume "v \<in> set (seen ?st1)"
    then consider "v \<in> set (seen st)" | "v \<in> set (get g u)" using seen1 by auto
    then show "v \<in> ?E\<^sup>+ `` {start}"
    proof cases
      case 1
      with i1 show ?thesis by auto
    next
      case 2
      then have "(u, v) \<in> ?E" by (simp add: get_edges_def)
      with u show ?thesis by (auto intro: trancl_into_trancl)
    qed
  qed
  have b: "set (dq ?st1) \<subseteq> insert start (set (seen ?st1))"
    using d1 i2 dq seen1 fr by auto
  have c: "?E `` (insert start (set (seen ?st1)) - set (dq ?st1)) \<subseteq> set (seen ?st1)"
  proof
    fix y assume "y \<in> ?E `` (insert start (set (seen ?st1)) - set (dq ?st1))"
    then obtain x where x: "x \<in> insert start (set (seen ?st1))" "x \<notin> set (dq ?st1)"
      and xy: "(x, y) \<in> ?E"
      by auto
    show "y \<in> set (seen ?st1)"
    proof (cases "x = u")
      case True
      with xy have "y \<in> set (get g u)" by (simp add: get_edges_def)
      with seen1 show ?thesis by simp
    next
      case False
      with x(2) d1 dq have nd: "x \<notin> set (dq st)" by auto
      from x(2) d1 have "x \<notin> set fr" by auto
      with x(1) seen1 fr have "x \<in> insert start (set (seen st))" by auto
      with nd xy i3 have "y \<in> set (seen st)" by auto
      with seen1 show ?thesis by simp
    qed
  qed
  from a b c show ?thesis by (simp add: bfs_inv_def)
qed

lemma reachable_while_inv:
  "bfs_inv g start st \<Longrightarrow> bfs_inv g start (reachable_while g st)"
proof (induction g st rule: reachable_while.induct)
  case (1 g st)
  show ?case
  proof (cases "dq st")
    case Nil
    with 1(2) show ?thesis by (simp add: reachable_while.simps)
  next
    case (Cons u rest)
    from 1(1)[OF Cons bfs_inv_step[OF 1(2) Cons]] Cons show ?thesis
      by (simp add: reachable_while.simps[of g st])
  qed
qed

lemma reachable_get_edges: "set (reachable g start) = (get_edges g)\<^sup>+ `` {start}"
proof -
  let ?E = "get_edges g"
  let ?S = "set (reachable g start)"
  have "bfs_inv g start \<lparr>seen = [], dq = [start], enqueued = [start]\<rparr>"
    by (simp add: bfs_inv_def)
  from reachable_while_inv[OF this] reachable_run_history[of g start]
  have sub: "?S \<subseteq> ?E\<^sup>+ `` {start}" and closed: "?E `` insert start ?S \<subseteq> ?S"
    by (simp_all add: bfs_inv_def reachable_run_def reachable_def)
  have "y \<in> ?S" if "(start, y) \<in> ?E\<^sup>+" for y
    using that
  proof (induction rule: trancl_induct)
    case (base y)
    with closed show ?case by auto
  next
    case (step y z)
    with closed show ?case by auto
  qed
  with sub show ?thesis by auto
qed

lemma get_edges_eq: "distinct (map fst g) \<Longrightarrow> get_edges g = edges g"
  by (auto simp: get_edges_def intro: get_edge edge_get)

lemma count_list_distinct: "distinct xs \<Longrightarrow> count_list xs x \<le> 1"
  by (induction xs) auto

text \<open>
  C5. The claim: the seen-set guarantees that each node is enqueued at most once over the
  whole run, also on a cyclic graph with an edge back to the start node. On the graph
  \<open>A: B\<close>, \<open>B: A\<close> with start \<open>A\<close> the worklist receives \<open>A\<close>, \<open>B\<close> and \<open>A\<close> again: the
  start node is enqueued twice.
\<close>

theorem reachable_enqueue_once_counterexample:
  "enqueued (reachable_run [(''A'', [''B'']), (''B'', [''A''])] ''A'') = [''A'', ''B'', ''A''] \<and>
   count_list (enqueued (reachable_run [(''A'', [''B'']), (''B'', [''A''])] ''A'')) ''A'' = 2 \<and>
   \<not> distinct (enqueued (reachable_run [(''A'', [''B'']), (''B'', [''A''])] ''A''))"
  by (simp add: reachable_run_def reachable_while.simps get_def set_add_def)

text \<open>
  C5, amended. The start node is put on the worklist at the beginning without being put
  into \<^verbatim>\<open>seen\<close>, so that the result leaves it out unless an edge leads back to it. The
  worklist receives the start node first and then every node of the result once, in the
  order in which \<^verbatim>\<open>seen\<close> receives them: a node other than the start node is enqueued at
  most once, the start node at most twice, and the loop ends, with an empty worklist.
\<close>

theorem reachable_enqueue_bound:
  "enqueued (reachable_run g start) = start # reachable g start \<and>
   distinct (reachable g start) \<and>
   (\<forall>x. count_list (enqueued (reachable_run g start)) x \<le> (if x = start then 2 else 1)) \<and>
   dq (reachable_run g start) = []"
proof -
  note h = reachable_run_history[of g start]
  have "count_list (start # reachable g start) x \<le> (if x = start then 2 else 1)" for x
    using count_list_distinct[of "reachable g start" x] h by auto
  with h show ?thesis by simp
qed

theorem reachable_enqueue_bound_witness:
  "enqueued (reachable_run [(''A'', [''B'']), (''B'', [''A''])] ''A'') = [''A'', ''B'', ''A''] \<and>
   reachable [(''A'', [''B'']), (''B'', [''A''])] ''A'' = [''B'', ''A''] \<and>
   count_list (enqueued (reachable_run [(''A'', [''B'']), (''B'', [''A''])] ''A'')) ''B'' \<le> 1 \<and>
   count_list (enqueued (reachable_run [(''A'', [''B'']), (''B'', [''A''])] ''A'')) ''A'' \<le> 2"
proof -
  have "reachable [(''A'', [''B'']), (''B'', [''A''])] ''A'' = [''B'', ''A'']"
    by (simp add: reachable_def reachable_run_def reachable_while.simps get_def set_add_def)
  with reachable_enqueue_bound[of "[(''A'', [''B'']), (''B'', [''A''])]" "''A''"]
  show ?thesis by simp
qed

text \<open>
  C7. The result of \<^verbatim>\<open>reachable\<close> holds exactly the nodes that one or more edges lead to
  from the start node; so it holds the start node exactly when a cycle leads back to it.
\<close>

theorem reachable_transitive_closure:
  "distinct (keys g) \<Longrightarrow>
     set (reachable g x) = {y. (x, y) \<in> (edges g)\<^sup>+} \<and>
     (x \<in> set (reachable g x) \<longleftrightarrow> (x, x) \<in> (edges g)\<^sup>+)"
  using reachable_get_edges[of g x] get_edges_eq[of g] by (auto simp: keys_def)

theorem reachable_transitive_closure_witness:
  "distinct (keys [(''A'', [''B'', ''C'']), (''B'', [''C'']), (''C'', [])]) \<and>
   reachable [(''A'', [''B'', ''C'']), (''B'', [''C'']), (''C'', [])] ''A'' = [''B'', ''C''] \<and>
   {y. (''A'', y) \<in> (edges [(''A'', [''B'', ''C'']), (''B'', [''C'']), (''C'', [])])\<^sup>+}
     = {''B'', ''C''} \<and>
   (''A'', ''A'') \<notin> (edges [(''A'', [''B'', ''C'']), (''B'', [''C'']), (''C'', [])])\<^sup>+"
proof -
  let ?g = "[(''A'', [''B'', ''C'']), (''B'', [''C'']), (''C'', [])]"
  have d: "distinct (keys ?g)" by (simp add: keys_def)
  have r: "reachable ?g ''A'' = [''B'', ''C'']"
    by (simp add: reachable_def reachable_run_def reachable_while.simps get_def set_add_def)
  from reachable_transitive_closure[OF d, of "''A''"] d r show ?thesis by auto
qed

section \<open>The reverse-dependency query\<close>

lemma edges_fold_add_if:
  "edges (fold (\<lambda>u gr. if P u then add_edge gr v u else gr) us gr)
     = edges gr \<union> {(v, u) |u. u \<in> set us \<and> P u}"
  by (induction us arbitrary: gr) (auto simp: edges_add_edge)

lemma edges_fold_rebuild:
  "edges (fold (\<lambda>v gr. fold (\<lambda>u gr. if P u then add_edge gr v u else gr) (get r v) gr) vs gr)
     = edges gr \<union> {(v, u). v \<in> set vs \<and> u \<in> set (get r v) \<and> P u}"
  by (induction vs arbitrary: gr) (auto simp: edges_fold_add_if)

text \<open>
  The two results of the query as sets: the nodes that reach the package along edges of
  the graph, and the reversed edges between them that start at such a node.
\<close>

lemma main_reverse_sets:
  "set (fst (main_reverse g t)) = ((edges g)\<inverse>)\<^sup>+ `` {t}"
  "edges (snd (main_reverse g t)) =
     {(v, u). (u, v) \<in> edges g \<and> v \<in> ((edges g)\<inverse>)\<^sup>+ `` {t} \<and>
              (u \<in> ((edges g)\<inverse>)\<^sup>+ `` {t} \<or> u = t)}"
proof -
  let ?r = "reverse_graph g"
  have d: "distinct (map fst ?r)" using distinct_reverse_graph[of g] by (simp add: keys_def)
  have E: "get_edges ?r = (edges g)\<inverse>"
    using get_edges_eq[OF d] by (simp add: edges_reverse_graph)
  have D: "set (reachable ?r t) = ((edges g)\<inverse>)\<^sup>+ `` {t}"
    using reachable_get_edges[of ?r t] E by simp
  then show "set (fst (main_reverse g t)) = ((edges g)\<inverse>)\<^sup>+ `` {t}"
    by (simp add: main_reverse_def Let_def)
  have G: "u \<in> set (get ?r v) \<longleftrightarrow> (u, v) \<in> edges g" for u v
    using E by (auto simp: get_edges_def)
  show "edges (snd (main_reverse g t)) =
     {(v, u). (u, v) \<in> edges g \<and> v \<in> ((edges g)\<inverse>)\<^sup>+ `` {t} \<and>
              (u \<in> ((edges g)\<inverse>)\<^sup>+ `` {t} \<or> u = t)}"
    unfolding main_reverse_def Let_def snd_conv edges_fold_rebuild D G
    by (auto simp: edges_Nil)
qed

lemmas load_eval = load_test_graph_def load_line_def strip_def is_space_def split_def
  UPPER_RE_fullmatch_def upper_letters_def set_add_def Let_def

lemmas reverse_eval = main_reverse_def reverse_graph_def reachable_def reachable_run_def
  reachable_while.simps get_def set_add_def edges_def edge_list_def Let_def

lemma load_test_repository: "load_test_graph test_repository = Inr test_graph"
  by (simp add: test_repository_def test_graph_def load_eval)

lemma main_reverse_test_graph: "main_reverse test_graph ''C'' = ([''A'', ''B''], [(''B'', [''A''])])"
  by (simp add: test_graph_def reverse_eval)

text \<open>
  The test of the rebuilding loop, \<^verbatim>\<open>u in depends_on_me or u == ns.package\<close>, never
  rejects an edge: the loop reads the reverse graph at a node that depends on the
  package, and whatever depends on such a node depends on the package too. The rebuilt
  graph holds every reverse edge that leaves the set, and no edge between the set and the
  package unless the package lies on a cycle.
\<close>

lemma main_reverse_keeps_all:
  "edges (snd (main_reverse g t)) =
     {(v, u). (u, v) \<in> edges g \<and> v \<in> ((edges g)\<inverse>)\<^sup>+ `` {t}}"
proof -
  have "u \<in> ((edges g)\<inverse>)\<^sup>+ `` {t}"
    if "(u, v) \<in> edges g" and "v \<in> ((edges g)\<inverse>)\<^sup>+ `` {t}" for u v
  proof -
    from that have "(t, v) \<in> ((edges g)\<inverse>)\<^sup>+" and "(v, u) \<in> (edges g)\<inverse>" by auto
    then have "(t, u) \<in> ((edges g)\<inverse>)\<^sup>+" by (rule trancl_into_trancl)
    then show ?thesis by auto
  qed
  then show ?thesis
    unfolding main_reverse_sets(2) by blast
qed

text \<open>
  C4. The claim: on the graph of \<open>A: B C\<close>, \<open>B: C\<close>, \<open>C:\<close> the query for \<open>C\<close> finds the
  set of \<open>A\<close> and \<open>B\<close> and rebuilds the subgraph with exactly the edges from \<open>B\<close> to \<open>C\<close>,
  from \<open>A\<close> to \<open>C\<close> and from \<open>A\<close> to \<open>B\<close>, the dependencies among the dependents and the
  target. The program finds the set, but its loop reads the neighbours of a dependent in
  the reverse graph, \<^verbatim>\<open>r.get(v, ())\<close>, where the dependencies of the dependent are in the
  graph itself: on every graph with the edges of that repository, whatever the order of
  its keys and sets, the rebuilt graph has the one edge from \<open>B\<close> to \<open>A\<close> and no edge at
  the target \<open>C\<close>; on the repository \<open>A: C\<close>, \<open>B: C\<close>, \<open>C:\<close> it is empty.
\<close>

theorem reverse_query_loses_target_edges:
  "load_test_graph test_repository = Inr test_graph \<and>
   edges test_graph = {(''A'', ''B''), (''A'', ''C''), (''B'', ''C'')} \<and>
   (edges g = edges test_graph \<longrightarrow>
      set (fst (main_reverse g ''C'')) = {''A'', ''B''} \<and>
      edges (snd (main_reverse g ''C'')) = {(''B'', ''A'')} \<and>
      edges (snd (main_reverse g ''C'')) \<noteq> {(''B'', ''C''), (''A'', ''C''), (''A'', ''B'')}) \<and>
   main_reverse [(''A'', [''C'']), (''B'', [''C'']), (''C'', [])] ''C'' = ([''A'', ''B''], [])"
proof (intro conjI impI)
  show "load_test_graph test_repository = Inr test_graph" by (rule load_test_repository)
  show "edges test_graph = {(''A'', ''B''), (''A'', ''C''), (''B'', ''C'')}"
    by (simp add: test_graph_def edges_def edge_list_def)
  show "main_reverse [(''A'', [''C'']), (''B'', [''C'']), (''C'', [])] ''C'' = ([''A'', ''B''], [])"
    by (simp add: reverse_eval)
next
  assume e: "edges g = edges test_graph"
  have "set (fst (main_reverse g ''C'')) = set (fst (main_reverse test_graph ''C''))"
    by (simp only: main_reverse_sets(1) e)
  then show "set (fst (main_reverse g ''C'')) = {''A'', ''B''}"
    by (simp add: main_reverse_test_graph)
next
  assume e: "edges g = edges test_graph"
  have "edges (snd (main_reverse g ''C'')) = edges (snd (main_reverse test_graph ''C''))"
    by (simp only: main_reverse_sets(2) e)
  then show "edges (snd (main_reverse g ''C'')) = {(''B'', ''A'')}"
    by (simp add: main_reverse_test_graph edges_def edge_list_def)
next
  assume e: "edges g = edges test_graph"
  have "edges (snd (main_reverse g ''C'')) = edges (snd (main_reverse test_graph ''C''))"
    by (simp only: main_reverse_sets(2) e)
  then show "edges (snd (main_reverse g ''C'')) \<noteq> {(''B'', ''C''), (''A'', ''C''), (''A'', ''B'')}"
    by (simp add: main_reverse_test_graph edges_def edge_list_def)
qed

theorem reverse_query_loses_target_edges_witness:
  "edges [(''B'', [''C'']), (''A'', [''C'', ''B''])] = edges test_graph \<and>
   set (fst (main_reverse [(''B'', [''C'']), (''A'', [''C'', ''B''])] ''C'')) = {''A'', ''B''} \<and>
   edges (snd (main_reverse [(''B'', [''C'']), (''A'', [''C'', ''B''])] ''C'')) = {(''B'', ''A'')}"
proof -
  have e: "edges [(''B'', [''C'']), (''A'', [''C'', ''B''])] = edges test_graph"
    by (auto simp: test_graph_def edges_def edge_list_def)
  from reverse_query_loses_target_edges[of "[(''B'', [''C'']), (''A'', [''C'', ''B''])]"] e
  show ?thesis by blast
qed

section \<open>DOT rendering\<close>

lemma set_fold_set_add: "set (fold (\<lambda>v ns. set_add ns v) nbrs nodes) = set nodes \<union> set nbrs"
  by (induction nbrs arbitrary: nodes) (auto simp: set_add_def)

text \<open>The first loop collects the keys and neighbours and writes one arrow for each edge.\<close>

lemma to_dot_first_loop:
  "fold (\<lambda>(u, nbrs) (nodes, lines).
           (fold (\<lambda>v ns. set_add ns v) nbrs nodes, lines @ map (arrow_stmt u) nbrs))
        g (nodes, lines) = (nodes', lines') \<Longrightarrow>
   set nodes' = set nodes \<union> snd ` edges g \<and>
   lines' = lines @ map (\<lambda>(u, v). arrow_stmt u v) (edge_list g)"
proof (induction g arbitrary: nodes lines)
  case Nil
  then show ?case by (simp add: edges_Nil edge_list_def)
next
  case (Cons e g)
  obtain u nbrs where e: "e = (u, nbrs)" by (cases e)
  from Cons.prems e
  have "fold (\<lambda>(u, nbrs) (nodes, lines).
           (fold (\<lambda>v ns. set_add ns v) nbrs nodes, lines @ map (arrow_stmt u) nbrs))
        g (fold (\<lambda>v ns. set_add ns v) nbrs nodes, lines @ map (arrow_stmt u) nbrs)
        = (nodes', lines')"
    by simp
  from Cons.IH[OF this]
  have n: "set nodes' = set nodes \<union> set nbrs \<union> snd ` edges g"
    and l: "lines' = (lines @ map (arrow_stmt u) nbrs) @ map (\<lambda>(u, v). arrow_stmt u v) (edge_list g)"
    by (simp_all add: set_fold_set_add)
  have "snd ` edges (e # g) = set nbrs \<union> snd ` edges g"
    by (simp add: e edges_Cons image_Un image_image)
  moreover have "map (\<lambda>(u, v). arrow_stmt u v) (edge_list (e # g))
      = map (arrow_stmt u) nbrs @ map (\<lambda>(u, v). arrow_stmt u v) (edge_list g)"
    by (simp add: e edge_list_def comp_def)
  ultimately show ?case using n l by auto
qed

text \<open>The second loop adds nothing when no node passes its test.\<close>

lemma to_dot_second_loop:
  "\<forall>n \<in> set nodes. \<not> Q n \<Longrightarrow>
     fold (\<lambda>n lines. if Q n then lines @ [node_stmt n] else lines) nodes lines = lines"
  by (induction nodes arbitrary: lines) auto

lemma target_in_some_set:
  "n \<in> snd ` edges g \<Longrightarrow> \<exists>s \<in> set (map snd g). n \<in> set s"
  by (force simp: edges_iff)

lemma to_dot_lines_eq:
  "to_dot_lines g =
     [''digraph deps {'', ''  rankdir=LR; node [shape=box, fontsize=10];'']
       @ map (\<lambda>(u, v). arrow_stmt u v) (edge_list g) @ [''}'']"
proof -
  let ?l0 = "[''digraph deps {'', ''  rankdir=LR; node [shape=box, fontsize=10];'']"
  obtain nodes lines1 where f:
    "fold (\<lambda>(u, nbrs) (nodes, lines).
            (fold (\<lambda>v ns. set_add ns v) nbrs nodes, lines @ map (arrow_stmt u) nbrs))
         g (remdups (keys g), ?l0) = (nodes, lines1)"
    by (cases "fold (\<lambda>(u, nbrs) (nodes, lines).
            (fold (\<lambda>v ns. set_add ns v) nbrs nodes, lines @ map (arrow_stmt u) nbrs))
         g (remdups (keys g), ?l0)")
  from to_dot_first_loop[OF f]
  have n: "set nodes = set (keys g) \<union> snd ` edges g"
    and l: "lines1 = ?l0 @ map (\<lambda>(u, v). arrow_stmt u v) (edge_list g)"
    by simp_all
  have "\<forall>n \<in> set nodes. \<not> (n \<notin> set (keys g) \<and> \<not> (\<exists>s \<in> set (map snd g). n \<in> set s))"
    using n target_in_some_set[of _ g] by blast
  from to_dot_second_loop[OF this, of lines1]
  show ?thesis
    unfolding to_dot_lines_def Let_def f prod.case l by simp
qed

text \<open>
  C6. The claim is right and \<^verbatim>\<open>to_dot\<close> has a loop for the standalone statements, but
  the test of that loop, \<^verbatim>\<open>n not in g and not any(n in s for s in g.values())\<close>, fails for
  every node the first loop has collected, a key or a neighbour. The text holds the two
  lines of the head, one arrow for each edge and the closing brace, and nothing else; an
  isolated node, as \<open>A\<close> in the graph of the repository \<open>A:\<close>, is not declared.
\<close>

theorem to_dot_omits_isolated_nodes:
  "to_dot_lines g =
     [''digraph deps {'', ''  rankdir=LR; node [shape=box, fontsize=10];'']
       @ map (\<lambda>(u, v). arrow_stmt u v) (edge_list g) @ [''}''] \<and>
   load_test_graph [''A:\<newline>''] = Inr [(''A'', [])] \<and>
   node_stmt ''A'' \<notin> set (to_dot_lines [(''A'', [])]) \<and>
   to_dot [(''A'', [])] =
     ''digraph deps {\<newline>  rankdir=LR; node [shape=box, fontsize=10];\<newline>}''"
proof -
  have "load_test_graph [''A:\<newline>''] = Inr [(''A'', [])]"
    by (simp add: load_eval)
  moreover have "to_dot_lines [(''A'', [])] =
      [''digraph deps {'', ''  rankdir=LR; node [shape=box, fontsize=10];'', ''}'']"
    by (simp add: to_dot_lines_eq edge_list_def)
  ultimately show ?thesis
    by (simp add: to_dot_lines_eq to_dot_def node_stmt_def)
qed

end
